theory Spec2Isabelle
  imports Complex_Main "HOL-Library.Multiset" "HOL-Library.AList"
begin

section \<open>The host's ordered map\<close>

text \<open>
  \<open>Collection<K, V>\<close> extends the built-in \<open>Map<K, V>\<close>. The map's data is the
  list of entry records of the language standard: \<open>set\<close> overwrites the value of the
  record that holds the key or appends a new record, \<open>delete\<close> and \<open>clear\<close> empty
  records in place (they are never removed, so the positions of the other records do not
  move), and an iterator is an index into that list which steps over emptied records.
  An emptied record is \<open>None\<close>. Keys are compared with HOL equality.
\<close>

type_synonym ('k, 'v) mapdata = "('k \<times> 'v) option list"

fun map_entries :: "('k, 'v) mapdata \<Rightarrow> ('k \<times> 'v) list" where
  "map_entries [] = []"
| "map_entries (None # md) = map_entries md"
| "map_entries (Some e # md) = e # map_entries md"

definition map_keys :: "('k, 'v) mapdata \<Rightarrow> 'k list" where
  "map_keys md = map fst (map_entries md)"

definition map_values :: "('k, 'v) mapdata \<Rightarrow> 'v list" where
  "map_values md = map snd (map_entries md)"

definition map_size :: "('k, 'v) mapdata \<Rightarrow> nat" where
  "map_size md = length (map_entries md)"

definition map_has :: "'k \<Rightarrow> ('k, 'v) mapdata \<Rightarrow> bool" where
  "map_has key md = (key \<in> set (map_keys md))"

definition map_get :: "'k \<Rightarrow> ('k, 'v) mapdata \<Rightarrow> 'v option" where
  "map_get key md = map_of (map_entries md) key"

fun map_set :: "'k \<Rightarrow> 'v \<Rightarrow> ('k, 'v) mapdata \<Rightarrow> ('k, 'v) mapdata" where
  "map_set key val [] = [Some (key, val)]"
| "map_set key val (None # md) = None # map_set key val md"
| "map_set key val (Some (k, v) # md) =
     (if k = key then Some (k, val) # md else Some (k, v) # map_set key val md)"

fun map_delete :: "'k \<Rightarrow> ('k, 'v) mapdata \<Rightarrow> ('k, 'v) mapdata" where
  "map_delete key [] = []"
| "map_delete key (None # md) = None # map_delete key md"
| "map_delete key (Some (k, v) # md) =
     (if k = key then None # md else Some (k, v) # map_delete key md)"


text \<open>\<open>new Map(iterable)\<close>: an empty map, then \<open>set\<close> for every pair of the iterable.\<close>

definition map_new :: "('k \<times> 'v) list \<Rightarrow> ('k, 'v) mapdata" where
  "map_new es = foldl (\<lambda>md (k, v). map_set k v md) [] es"

text \<open>The representation invariant of a map: no key is held by two records.\<close>

definition map_ok :: "('k, 'v) mapdata \<Rightarrow> bool" where
  "map_ok md = distinct (map_keys md)"

section \<open>The host's arrays, iterators and numbers\<close>

text \<open>
  An array element or a result that may be \<open>undefined\<close> is an option, \<open>None\<close> for
  \<open>undefined\<close>. \<open>array_index\<close> is the read \<open>arr[i]\<close>, which yields \<open>undefined\<close> out of
  range; \<open>iter_next\<close> is \<open>iter.next().value\<close> on an iterator over the listed items;
  \<open>array_from_iter n\<close> is \<open>Array.from({ length: n }, () => iter.next().value)\<close>, which
  calls the callback once per index in increasing order.
\<close>

definition array_index :: "'a list \<Rightarrow> int \<Rightarrow> 'a option" where
  "array_index arr i = (if 0 \<le> i \<and> i < int (length arr) then Some (arr ! nat i) else None)"

definition iter_next :: "'a list \<Rightarrow> 'a option \<times> 'a list" where
  "iter_next it = (case it of [] \<Rightarrow> (None, []) | x # rest \<Rightarrow> (Some x, rest))"

fun array_from_iter :: "nat \<Rightarrow> 'a list \<Rightarrow> 'a option list" where
  "array_from_iter 0 it = []"
| "array_from_iter (Suc n) it =
     (case iter_next it of (x, rest) \<Rightarrow> x # array_from_iter n rest)"

text \<open>
  A \<open>number\<close> is a finite value, \<open>NaN\<close> or an infinity. The finite values are taken
  as rationals: rounding plays no part in \<open>Math.floor\<close> or in the conversion to an
  integer. \<open>ToIntegerOrInfinity\<close> is the standard's conversion of an index argument: it
  truncates toward zero and sends \<open>NaN\<close> to 0. \<open>Array_at\<close> is \<open>Array.prototype.at\<close>.
\<close>

datatype number = Num rat | NaN | PosInfinity | NegInfinity

datatype integer_or_infinity = Integer int | PosInf | NegInf

fun Math_floor :: "number \<Rightarrow> number" where
  "Math_floor (Num r) = Num (of_int \<lfloor>r\<rfloor>)"
| "Math_floor NaN = NaN"
| "Math_floor PosInfinity = PosInfinity"
| "Math_floor NegInfinity = NegInfinity"

fun ToIntegerOrInfinity :: "number \<Rightarrow> integer_or_infinity" where
  "ToIntegerOrInfinity (Num r) = Integer (if r < 0 then - \<lfloor>- r\<rfloor> else \<lfloor>r\<rfloor>)"
| "ToIntegerOrInfinity NaN = Integer 0"
| "ToIntegerOrInfinity PosInfinity = PosInf"
| "ToIntegerOrInfinity NegInfinity = NegInf"

fun Array_at :: "'a list \<Rightarrow> number \<Rightarrow> 'a option" where
  "Array_at arr index =
     (case ToIntegerOrInfinity index of
        Integer relativeIndex \<Rightarrow>
          (let len = int (length arr);
               k = (if 0 \<le> relativeIndex then relativeIndex else len + relativeIndex)
           in if k < 0 \<or> len \<le> k then None else Some (arr ! nat k))
      | PosInf \<Rightarrow> None
      | NegInf \<Rightarrow> None)"

text \<open>
  The operations of the host on an amount: \<open>number_negative\<close> is the test \<open>amount < 0\<close>,
  \<open>number_negate\<close> is \<open>amount * -1\<close> and the unary minus, \<open>number_falsy\<close> is the test
  \<open>!amount\<close>, all three with the standard's treatment of \<open>NaN\<close> and the infinities.
  \<open>ToLength\<close> is the standard's conversion of the \<open>length\<close> property that \<open>Array.from\<close>
  reads, and \<open>array_slice_from\<close> is \<open>arr.slice(start)\<close>.
\<close>

fun number_negative :: "number \<Rightarrow> bool" where
  "number_negative (Num r) = (r < 0)"
| "number_negative NaN = False"
| "number_negative PosInfinity = False"
| "number_negative NegInfinity = True"

fun number_negate :: "number \<Rightarrow> number" where
  "number_negate (Num r) = Num (- r)"
| "number_negate NaN = NaN"
| "number_negate PosInfinity = NegInfinity"
| "number_negate NegInfinity = PosInfinity"

fun number_falsy :: "number \<Rightarrow> bool" where
  "number_falsy (Num r) = (r = 0)"
| "number_falsy NaN = True"
| "number_falsy PosInfinity = False"
| "number_falsy NegInfinity = False"

fun Math_min :: "number \<Rightarrow> number \<Rightarrow> number" where
  "Math_min NaN y = NaN"
| "Math_min x NaN = NaN"
| "Math_min NegInfinity y = NegInfinity"
| "Math_min x NegInfinity = NegInfinity"
| "Math_min PosInfinity y = y"
| "Math_min x PosInfinity = x"
| "Math_min (Num a) (Num b) = Num (min a b)"

definition ToLength :: "number \<Rightarrow> nat" where
  "ToLength x =
     (case ToIntegerOrInfinity x of
        Integer len \<Rightarrow> if len \<le> 0 then 0 else nat (min len (2 ^ 53 - 1))
      | PosInf \<Rightarrow> nat (2 ^ 53 - 1)
      | NegInf \<Rightarrow> 0)"

definition array_slice_from :: "number \<Rightarrow> 'a list \<Rightarrow> 'a list" where
  "array_slice_from start arr =
     (let len = int (length arr);
          k = (case ToIntegerOrInfinity start of
                 NegInf \<Rightarrow> 0
               | Integer relativeStart \<Rightarrow>
                   if relativeStart < 0 then max (len + relativeStart) 0
                   else min relativeStart len
               | PosInf \<Rightarrow> len)
      in drop (nat k) arr)"

section \<open>Collection: positional access\<close>

text \<open>
  \<open>first\<close>, \<open>last\<close> and their key variants return one item or an array, by whether
  \<open>amount\<close> is given (\<open>None\<close> is an absent argument); a given amount is any number.
  Each of \<open>first\<close> and \<open>last\<close> calls the other on a negative amount. The array that
  \<open>first\<close> builds is no longer than the map has entries.
\<close>

datatype 'a one_or_many = One "'a option" | Many "'a option list"

lemma number_negate_not_negative: "number_negative amount \<Longrightarrow> \<not> number_negative (number_negate amount)"
  by (cases amount) simp_all

function first :: "number option \<Rightarrow> ('k, 'v) mapdata \<Rightarrow> 'v one_or_many"
  and last_coll :: "number option \<Rightarrow> ('k, 'v) mapdata \<Rightarrow> 'v one_or_many" where
  "first None this = One (fst (iter_next (map_values this)))"
| "first (Some amount) this =
     (if number_negative amount then last_coll (Some (number_negate amount)) this
      else let amount' = Math_min (Num (of_nat (map_size this))) amount
           in Many (array_from_iter (ToLength amount') (map_values this)))"
| "last_coll None this =
     (let arr = map_values this in One (array_index arr (int (length arr) - 1)))"
| "last_coll (Some amount) this =
     (let arr = map_values this
      in if number_negative amount then first (Some (number_negate amount)) this
         else if number_falsy amount then Many []
         else Many (map Some (array_slice_from (number_negate amount) arr)))"
  by pat_completeness auto
termination
  by (relation "measure (\<lambda>x. case x of
        Inl (a, _) \<Rightarrow> (case a of Some n \<Rightarrow> if number_negative n then 1 else 0 | None \<Rightarrow> 0)
      | Inr (a, _) \<Rightarrow> (case a of Some n \<Rightarrow> if number_negative n then 1 else 0 | None \<Rightarrow> 0))")
    (auto simp: number_negate_not_negative)

function firstKey :: "number option \<Rightarrow> ('k, 'v) mapdata \<Rightarrow> 'k one_or_many"
  and lastKey :: "number option \<Rightarrow> ('k, 'v) mapdata \<Rightarrow> 'k one_or_many" where
  "firstKey None this = One (fst (iter_next (map_keys this)))"
| "firstKey (Some amount) this =
     (if number_negative amount then lastKey (Some (number_negate amount)) this
      else let amount' = Math_min (Num (of_nat (map_size this))) amount
           in Many (array_from_iter (ToLength amount') (map_keys this)))"
| "lastKey None this =
     (let arr = map_keys this in One (array_index arr (int (length arr) - 1)))"
| "lastKey (Some amount) this =
     (let arr = map_keys this
      in if number_negative amount then firstKey (Some (number_negate amount)) this
         else if number_falsy amount then Many []
         else Many (map Some (array_slice_from (number_negate amount) arr)))"
  by pat_completeness auto
termination
  by (relation "measure (\<lambda>x. case x of
        Inl (a, _) \<Rightarrow> (case a of Some n \<Rightarrow> if number_negative n then 1 else 0 | None \<Rightarrow> 0)
      | Inr (a, _) \<Rightarrow> (case a of Some n \<Rightarrow> if number_negative n then 1 else 0 | None \<Rightarrow> 0))")
    (auto simp: number_negate_not_negative)

text \<open>\<open>at(index)\<close> and \<open>keyAt(index)\<close>: \<open>Math.floor\<close>, then \<open>Array.prototype.at\<close>.\<close>

definition at_coll :: "number \<Rightarrow> ('k, 'v) mapdata \<Rightarrow> 'v option" where
  "at_coll index this =
     (let index' = Math_floor index; arr = map_values this in Array_at arr index')"

definition keyAt :: "number \<Rightarrow> ('k, 'v) mapdata \<Rightarrow> 'k option" where
  "keyAt index this =
     (let index' = Math_floor index; arr = map_keys this in Array_at arr index')"

section \<open>Collection: random access\<close>

text \<open>
  The results of the successive calls of \<open>Math.random()\<close> within one method call are
  \<open>rnd 0\<close>, \<open>rnd 1\<close>, ...; each lies in the interval from 0 up to but excluding 1, and
  the product with the length is taken exactly. \<open>random_index\<close> is
  \<open>Math.floor(Math.random() * arr.length)\<close>. \<open>array_splice1 start arr\<close> is
  \<open>arr.splice(start, 1)[0]\<close>, paired with the array as the call leaves it.
\<close>

definition random_index :: "rat \<Rightarrow> nat \<Rightarrow> int" where
  "random_index r len = \<lfloor>r * of_nat len\<rfloor>"

definition array_splice1 :: "int \<Rightarrow> 'a list \<Rightarrow> 'a option \<times> 'a list" where
  "array_splice1 start arr =
     (let len = int (length arr);
          k = (if start < 0 then max (len + start) 0 else min start len)
      in if k < len then (Some (arr ! nat k), take (nat k) arr @ drop (Suc (nat k)) arr)
         else (None, arr))"

text \<open>
  \<open>random_draws rnd j n arr\<close> is
  \<open>Array.from({ length: n }, () => arr.splice(Math.floor(Math.random() * arr.length), 1)[0])\<close>
  when \<open>j\<close> calls of \<open>Math.random()\<close> have been made before.
\<close>

fun random_draws :: "(nat \<Rightarrow> rat) \<Rightarrow> nat \<Rightarrow> nat \<Rightarrow> 'a list \<Rightarrow> 'a option list" where
  "random_draws rnd j 0 arr = []"
| "random_draws rnd j (Suc n) arr =
     (case array_splice1 (random_index (rnd j) (length arr)) arr of
        (x, arr') \<Rightarrow> x # random_draws rnd (Suc j) n arr')"

definition random :: "(nat \<Rightarrow> rat) \<Rightarrow> int option \<Rightarrow> ('k, 'v) mapdata \<Rightarrow> 'v one_or_many" where
  "random rnd amount this =
     (let arr = map_values this
      in case amount of
           None \<Rightarrow> One (array_index arr (random_index (rnd 0) (length arr)))
         | Some amount \<Rightarrow>
             if length arr = 0 \<or> amount = 0 then Many []
             else Many (random_draws rnd 0 (nat (min amount (int (length arr)))) arr))"

definition randomKey :: "(nat \<Rightarrow> rat) \<Rightarrow> int option \<Rightarrow> ('k, 'v) mapdata \<Rightarrow> 'k one_or_many" where
  "randomKey rnd amount this =
     (let arr = map_keys this
      in case amount of
           None \<Rightarrow> One (array_index arr (random_index (rnd 0) (length arr)))
         | Some amount \<Rightarrow>
             if length arr = 0 \<or> amount = 0 then Many []
             else Many (random_draws rnd 0 (nat (min amount (int (length arr)))) arr))"

section \<open>Collection: ensure, sweep\<close>

text \<open>
  \<open>ensure(key, defaultValueGenerator)\<close> returns its value, the collection as it leaves
  it, and the calls of the generator it made, each with the arguments of the call.
\<close>

definition ensure ::
  "'k \<Rightarrow> ('k \<Rightarrow> ('k, 'v) mapdata \<Rightarrow> 'v) \<Rightarrow> ('k, 'v) mapdata \<Rightarrow>
    'v option \<times> ('k, 'v) mapdata \<times> ('k \<times> ('k, 'v) mapdata) list" where
  "ensure key defaultValueGenerator this =
     (if map_has key this then (map_get key this, this, [])
      else let defaultValue = defaultValueGenerator key this
           in (Some defaultValue, map_set key defaultValue this, [(key, this)]))"

lemma length_map_delete: "length (map_delete key md) = length md"
  by (induction key md rule: map_delete.induct) auto

text \<open>
  \<open>sweep(fn)\<close> runs \<open>for (const [key, val] of this)\<close> on the map it deletes from. The
  iterator is at record \<open>i\<close> of the map's data, skips an emptied record, and ends when
  \<open>i\<close> reaches the number of records the map has at that moment.
\<close>

function sweep_loop ::
  "('v \<Rightarrow> 'k \<Rightarrow> ('k, 'v) mapdata \<Rightarrow> bool) \<Rightarrow> nat \<Rightarrow> ('k, 'v) mapdata \<Rightarrow> ('k, 'v) mapdata" where
  "sweep_loop fn i this =
     (if i < length this then
        (case this ! i of
           None \<Rightarrow> sweep_loop fn (Suc i) this
         | Some (key, val) \<Rightarrow>
             if fn val key this then sweep_loop fn (Suc i) (map_delete key this)
             else sweep_loop fn (Suc i) this)
      else this)"
  by pat_completeness auto
termination
  by (relation "measure (\<lambda>(fn, i, this). length this - i)") (auto simp: length_map_delete)

definition sweep ::
  "('v \<Rightarrow> 'k \<Rightarrow> ('k, 'v) mapdata \<Rightarrow> bool) \<Rightarrow> ('k, 'v) mapdata \<Rightarrow> int \<times> ('k, 'v) mapdata" where
  "sweep fn this =
     (let previousSize = map_size this;
          this' = sweep_loop fn 0 this
      in (int previousSize - int (map_size this'), this'))"

section \<open>Collection: reduce\<close>

datatype error = TypeError string

text \<open>
  \<open>reduce(fn, initialValue?)\<close>. A callback is a function of its arguments, the
  collection among them. \<open>None\<close> is an initial value of \<open>undefined\<close>, whether the
  argument was left out or \<open>undefined\<close> was passed: the code tests
  \<open>typeof initialValue\<close>, which does not tell the two apart. In that case
  the accumulator starts unset with the flag \<open>first\<close> up, and the first entry's value is
  stored in it through the cast \<open>val as unknown as T\<close>, here \<open>as_T\<close>; the state of that
  loop is \<open>None\<close> while \<open>first\<close> is up and \<open>Some accumulator\<close> afterwards.
\<close>

definition reduce ::
  "('v \<Rightarrow> 't) \<Rightarrow> ('t \<Rightarrow> 'v \<Rightarrow> 'k \<Rightarrow> ('k, 'v) mapdata \<Rightarrow> 't) \<Rightarrow> 't option \<Rightarrow>
    ('k, 'v) mapdata \<Rightarrow> error + 't" where
  "reduce as_T fn initialValue this =
     (case initialValue of
        Some init \<Rightarrow>
          Inr (foldl (\<lambda>accumulator (key, val). fn accumulator val key this) init
                 (map_entries this))
      | None \<Rightarrow>
          (case foldl (\<lambda>st (key, val).
                   case st of
                     None \<Rightarrow> Some (as_T val)
                   | Some accumulator \<Rightarrow> Some (fn accumulator val key this))
                 None (map_entries this) of
             None \<Rightarrow> Inl (TypeError ''Reduce of empty collection with no initial value'')
           | Some accumulator \<Rightarrow> Inr accumulator))"

section \<open>Collection: intersect, difference\<close>

definition intersect :: "('k, 'v) mapdata \<Rightarrow> ('k, 'v) mapdata \<Rightarrow> ('k, 'v) mapdata" where
  "intersect this other =
     foldl (\<lambda>coll (k, v). if map_has k this then map_set k v coll else coll) []
       (map_entries other)"

definition difference :: "('k, 'v) mapdata \<Rightarrow> ('k, 'v) mapdata \<Rightarrow> ('k, 'v) mapdata" where
  "difference this other =
     (let coll = foldl (\<lambda>coll (k, v). if \<not> map_has k this then map_set k v coll else coll) []
                   (map_entries other)
      in foldl (\<lambda>coll (k, v). if \<not> map_has k other then map_set k v coll else coll) coll
           (map_entries this))"

section \<open>Collections as objects: clone, equals, sort, sorted\<close>

text \<open>
  Where the identity of a collection matters, collections live in a heap: a reference is
  the index of an object, and \<open>new\<close> appends the object it makes, so its reference is
  fresh. \<open>set\<close> and \<open>delete\<close> change the object behind the reference they are called
  on.
\<close>

type_synonym ref = nat

type_synonym ('k, 'v) heap = "('k, 'v) mapdata list"

definition new_Collection :: "('k \<times> 'v) list \<Rightarrow> ('k, 'v) heap \<Rightarrow> ref \<times> ('k, 'v) heap" where
  "new_Collection es h = (length h, h @ [map_new es])"

definition set_coll :: "ref \<Rightarrow> 'k \<Rightarrow> 'v \<Rightarrow> ('k, 'v) heap \<Rightarrow> ref \<times> ('k, 'v) heap" where
  "set_coll this key val h = (this, h[this := map_set key val (h ! this)])"

definition delete_coll :: "ref \<Rightarrow> 'k \<Rightarrow> ('k, 'v) heap \<Rightarrow> bool \<times> ('k, 'v) heap" where
  "delete_coll this key h = (map_has key (h ! this), h[this := map_delete key (h ! this)])"

text \<open>\<open>clone()\<close> is \<open>new this.constructor[Symbol.species](this)\<close>.\<close>

definition clone :: "ref \<Rightarrow> ('k, 'v) heap \<Rightarrow> ref \<times> ('k, 'v) heap" where
  "clone this h = new_Collection (map_entries (h ! this)) h"

text \<open>
  \<open>equals(collection)\<close> compares values with \<open>!==\<close>, which is the parameter
  \<open>strict_eq\<close> negated: strict equality is a relation of the host on the values of the
  value type, and it is not reflexive on numbers, where \<open>NaN\<close> differs from itself. An
  absent (\<open>null\<close> or \<open>undefined\<close>) argument is \<open>None\<close>.
\<close>

fun strict_equals_number :: "number \<Rightarrow> number \<Rightarrow> bool" where
  "strict_equals_number NaN y = False"
| "strict_equals_number x NaN = False"
| "strict_equals_number x y = (x = y)"

fun equals_loop ::
  "('v \<Rightarrow> 'v \<Rightarrow> bool) \<Rightarrow> ('k \<times> 'v) list \<Rightarrow> ('k, 'v) mapdata \<Rightarrow> bool" where
  "equals_loop strict_eq [] collection = True"
| "equals_loop strict_eq ((key, val) # rest) collection =
     (if \<not> map_has key collection
         \<or> \<not> (case map_get key collection of Some v \<Rightarrow> strict_eq val v | None \<Rightarrow> False)
      then False
      else equals_loop strict_eq rest collection)"

definition equals ::
  "('v \<Rightarrow> 'v \<Rightarrow> bool) \<Rightarrow> ref \<Rightarrow> ref option \<Rightarrow> ('k, 'v) heap \<Rightarrow> bool" where
  "equals strict_eq this collection h =
     (case collection of
        None \<Rightarrow> False
      | Some c \<Rightarrow>
          if this = c then True
          else if map_size (h ! this) \<noteq> map_size (h ! c) then False
          else equals_loop strict_eq (map_entries (h ! this)) (h ! c))"





section \<open>The caching collection\<close>

text \<open>
  The version of the class that caches \<open>array()\<close> and \<open>keyArray()\<close> in the fields
  \<open>_array\<close> and \<open>_keyArray\<close>, here \<open>array_cache\<close> and \<open>keyArray_cache\<close> (\<open>None\<close> for
  \<open>null\<close>), and overrides \<open>set\<close> and \<open>delete\<close> to reset them.
\<close>

record ('k, 'v) cached_collection =
  mapData :: "('k, 'v) mapdata"
  array_cache :: "'v list option"
  keyArray_cache :: "'k list option"

definition set_cached ::
  "'k \<Rightarrow> 'v \<Rightarrow> ('k, 'v) cached_collection \<Rightarrow> ('k, 'v) cached_collection" where
  "set_cached key val this =
     this\<lparr>array_cache := None, keyArray_cache := None,
          mapData := map_set key val (mapData this)\<rparr>"

definition delete_cached ::
  "'k \<Rightarrow> ('k, 'v) cached_collection \<Rightarrow> bool \<times> ('k, 'v) cached_collection" where
  "delete_cached key this =
     (map_has key (mapData this),
      this\<lparr>array_cache := None, keyArray_cache := None,
           mapData := map_delete key (mapData this)\<rparr>)"

text \<open>
  The constructor: \<open>super(entries)\<close> calls \<open>this.set\<close> for every pair, then both fields
  are defined as \<open>null\<close>.
\<close>

definition new_cached :: "('k \<times> 'v) list \<Rightarrow> ('k, 'v) cached_collection" where
  "new_cached es =
     (foldl (\<lambda>c (k, v). set_cached k v c)
        \<lparr>mapData = [], array_cache = None, keyArray_cache = None\<rparr> es)
       \<lparr>array_cache := None, keyArray_cache := None\<rparr>"

definition array :: "('k, 'v) cached_collection \<Rightarrow> 'v list \<times> ('k, 'v) cached_collection" where
  "array this =
     (case array_cache this of
        Some a \<Rightarrow>
          if length a \<noteq> map_size (mapData this)
          then (map_values (mapData this),
                this\<lparr>array_cache := Some (map_values (mapData this))\<rparr>)
          else (a, this)
      | None \<Rightarrow>
          (map_values (mapData this), this\<lparr>array_cache := Some (map_values (mapData this))\<rparr>))"

definition keyArray :: "('k, 'v) cached_collection \<Rightarrow> 'k list \<times> ('k, 'v) cached_collection" where
  "keyArray this =
     (case keyArray_cache this of
        Some a \<Rightarrow>
          if length a \<noteq> map_size (mapData this)
          then (map_keys (mapData this),
                this\<lparr>keyArray_cache := Some (map_keys (mapData this))\<rparr>)
          else (a, this)
      | None \<Rightarrow>
          (map_keys (mapData this), this\<lparr>keyArray_cache := Some (map_keys (mapData this))\<rparr>))"

text \<open>
  \<open>random\<close> of the caching version: the array is \<open>this.array()\<close>, copied by
  \<open>arr.slice()\<close> before the draws, and the length of the result is \<open>amount\<close>.
\<close>

definition random_cached ::
  "(nat \<Rightarrow> rat) \<Rightarrow> int option \<Rightarrow> ('k, 'v) cached_collection \<Rightarrow>
    'v one_or_many \<times> ('k, 'v) cached_collection" where
  "random_cached rnd amount this =
     (case array this of
        (arr, this') \<Rightarrow>
          (case amount of
             None \<Rightarrow> (One (array_index arr (random_index (rnd 0) (length arr))), this')
           | Some amount \<Rightarrow>
               if length arr = 0 \<or> amount = 0 then (Many [], this')
               else (Many (random_draws rnd 0 (nat amount) arr), this')))"

definition randomKey_cached ::
  "(nat \<Rightarrow> rat) \<Rightarrow> int option \<Rightarrow> ('k, 'v) cached_collection \<Rightarrow>
    'k one_or_many \<times> ('k, 'v) cached_collection" where
  "randomKey_cached rnd amount this =
     (case keyArray this of
        (arr, this') \<Rightarrow>
          (case amount of
             None \<Rightarrow> (One (array_index arr (random_index (rnd 0) (length arr))), this')
           | Some amount \<Rightarrow>
               if length arr = 0 \<or> amount = 0 then (Many [], this')
               else (Many (random_draws rnd 0 (nat amount) arr), this')))"

text \<open>
  A caller's calls of \<open>set\<close>, \<open>delete\<close>, \<open>array()\<close> and \<open>keyArray()\<close>, and the
  collection after a sequence of them.
\<close>

datatype ('k, 'v) call = Set 'k 'v | Delete 'k | Array | KeyArray

fun run_call :: "('k, 'v) call \<Rightarrow> ('k, 'v) cached_collection \<Rightarrow> ('k, 'v) cached_collection" where
  "run_call (Set key val) c = set_cached key val c"
| "run_call (Delete key) c = snd (delete_cached key c)"
| "run_call Array c = snd (array c)"
| "run_call KeyArray c = snd (keyArray c)"

definition run_calls ::
  "('k, 'v) call list \<Rightarrow> ('k, 'v) cached_collection \<Rightarrow> ('k, 'v) cached_collection" where
  "run_calls calls c = foldl (\<lambda>c call. run_call call c) c calls"

definition cache_ok :: "('k, 'v) cached_collection \<Rightarrow> bool" where
  "cache_ok c =
     ((array_cache c = None \<or> array_cache c = Some (map_values (mapData c)))
      \<and> (keyArray_cache c = None \<or> keyArray_cache c = Some (map_keys (mapData c))))"

section \<open>Callbacks of the examples\<close>

text \<open>\<open>(val, key, coll) => coll.size > 1\<close>, a predicate that reads the collection.\<close>

definition more_than_one_left :: "'v \<Rightarrow> 'k \<Rightarrow> ('k, 'v) mapdata \<Rightarrow> bool" where
  "more_than_one_left val key coll = (1 < map_size coll)"



section \<open>Facts about the host's map\<close>

lemma map_entries_append: "map_entries (md @ md') = map_entries md @ map_entries md'"
  by (induction md rule: map_entries.induct) auto

lemma map_entries_map_set: "map_entries (map_set key val md) = AList.update key val (map_entries md)"
  by (induction key val md rule: map_set.induct) auto

lemma map_entries_map_delete:
  "map_entries (map_delete key md) = AList.delete_aux key (map_entries md)"
  by (induction key md rule: map_delete.induct) auto


lemma update_fresh: "key \<notin> fst ` set al \<Longrightarrow> AList.update key val al = al @ [(key, val)]"
  by (induction al) auto

lemma delete_aux_filter:
  "distinct (map fst al) \<Longrightarrow> AList.delete_aux key al = filter (\<lambda>e. fst e \<noteq> key) al"
proof (induction al)
  case Nil
  then show ?case by simp
next
  case (Cons e al)
  obtain k v where e: "e = (k, v)" by (cases e)
  show ?case
  proof (cases "k = key")
    case True
    with Cons.prems e have "key \<notin> fst ` set al" by auto
    then have "filter (\<lambda>e. fst e \<noteq> key) al = al" by (auto simp: filter_id_conv)
    with True e show ?thesis by simp
  next
    case False
    with Cons e show ?thesis by auto
  qed
qed

lemma map_ok_map_set: "map_ok md \<Longrightarrow> map_ok (map_set key val md)"
  by (simp add: map_ok_def map_keys_def map_entries_map_set distinct_update)

lemma map_ok_map_delete: "map_ok md \<Longrightarrow> map_ok (map_delete key md)"
  by (simp add: map_ok_def map_keys_def map_entries_map_delete)

lemma map_ok_fold_set: "map_ok md \<Longrightarrow> map_ok (foldl (\<lambda>md (k, v). map_set k v md) md es)"
  by (induction es arbitrary: md) (auto simp: map_ok_map_set)

lemma map_ok_map_new: "map_ok (map_new es)"
  unfolding map_new_def by (rule map_ok_fold_set) (simp add: map_ok_def map_keys_def)

lemma map_entries_map_delete_filter:
  "map_ok md \<Longrightarrow> map_entries (map_delete key md) = filter (\<lambda>e. fst e \<noteq> key) (map_entries md)"
  by (simp add: map_entries_map_delete delete_aux_filter map_ok_def map_keys_def)

lemma map_entries_fold_set_fresh:
  "distinct (map fst es) \<Longrightarrow> fst ` set es \<inter> fst ` set (map_entries md) = {} \<Longrightarrow>
   map_entries (foldl (\<lambda>md (k, v). map_set k v md) md es) = map_entries md @ es"
proof (induction es arbitrary: md)
  case Nil
  then show ?case by simp
next
  case (Cons e es)
  obtain k v where e: "e = (k, v)" by (cases e)
  from Cons.prems have fresh: "k \<notin> fst ` set (map_entries md)" by (auto simp: e)
  have step: "map_entries (map_set k v md) = map_entries md @ [(k, v)]"
    by (simp add: map_entries_map_set update_fresh fresh)
  from Cons.prems have "distinct (map fst es)"
    and "fst ` set es \<inter> fst ` set (map_entries (map_set k v md)) = {}"
    by (auto simp: e step)
  then show ?case using Cons.IH [of "map_set k v md"] by (simp add: e step)
qed

lemma map_entries_map_new: "distinct (map fst es) \<Longrightarrow> map_entries (map_new es) = es"
  using map_entries_fold_set_fresh [of es "[]"] by (simp add: map_new_def)

lemma map_new_entries_ok:
  "map_ok md \<Longrightarrow> map_entries (map_new (map_entries md)) = map_entries md"
  by (simp add: map_ok_def map_keys_def map_entries_map_new)


lemma card_map_keys: "map_ok md \<Longrightarrow> card (set (map_keys md)) = map_size md"
  unfolding map_ok_def map_size_def map_keys_def
  by (metis distinct_card length_map)

lemma map_has_iff_get: "map_has key md \<longleftrightarrow> (\<exists>v. map_get key md = Some v)"
proof -
  have "map_has key md \<longleftrightarrow> map_get key md \<noteq> None"
    unfolding map_has_def map_get_def map_keys_def by (simp add: map_of_eq_None_iff)
  then show ?thesis by simp
qed

lemma map_get_map_set:
  "map_get k (map_set key val md) = (if k = key then Some val else map_get k md)"
  by (simp add: map_get_def map_entries_map_set update_conv')

lemma map_get_nil: "map_get k [] = None"
  by (simp add: map_get_def)

lemma map_get_own_entry:
  "map_ok md \<Longrightarrow> (k, v) \<in> set (map_entries md) \<Longrightarrow> map_get k md = Some v"
  by (simp add: map_ok_def map_keys_def map_get_def)

lemma map_keys_map_set: "set (map_keys (map_set key val md)) = insert key (set (map_keys md))"
  using dom_update [of key val "map_entries md"]
  by (simp add: map_keys_def map_entries_map_set)

lemma map_entries_map_set_fresh:
  "\<not> map_has key md \<Longrightarrow> map_entries (map_set key val md) = map_entries md @ [(key, val)]"
  by (simp add: map_has_def map_keys_def map_entries_map_set update_fresh)

section \<open>Facts about the host's arrays\<close>

lemma array_from_iter_take:
  "array_from_iter n it = map Some (take n it) @ replicate (n - length it) None"
  by (induction n arbitrary: it) (auto simp: iter_next_def split: list.splits)

lemma ToIntegerOrInfinity_of_int: "ToIntegerOrInfinity (Num (of_int i)) = Integer i"
  by simp

lemma array_slice_from_neg:
  "0 < n \<Longrightarrow>
   array_slice_from (number_negate (Num (of_int n))) arr
     = drop (length arr - min (nat n) (length arr)) arr"
proof -
  assume n: "0 < n"
  have "number_negate (Num (of_int n)) = Num (of_int (- n))" by simp
  then have "array_slice_from (number_negate (Num (of_int n))) arr
      = drop (nat (max (int (length arr) + - n) 0)) arr"
    using n by (simp only: array_slice_from_def ToIntegerOrInfinity_of_int Let_def) simp
  also have "nat (max (int (length arr) + - n) 0) = length arr - min (nat n) (length arr)"
    using n by (auto simp: max_def min_def nat_diff_distrib)
  finally show ?thesis .
qed

lemma ToLength_min_size:
  "0 \<le> n \<Longrightarrow> sz \<le> 2 ^ 53 - 1 \<Longrightarrow>
   ToLength (Math_min (Num (of_nat sz)) (Num (of_int n))) = min (nat n) sz"
proof -
  assume n: "0 \<le> n" and sz: "sz \<le> 2 ^ 53 - 1"
  have "Math_min (Num (of_nat sz)) (Num (of_int n)) = Num (of_int (min (int sz) n))"
    by (simp add: min_def)
  then have "ToLength (Math_min (Num (of_nat sz)) (Num (of_int n)))
      = (if min (int sz) n \<le> 0 then 0 else nat (min (min (int sz) n) (2 ^ 53 - 1)))"
    by (simp only: ToLength_def ToIntegerOrInfinity_of_int integer_or_infinity.case)
  also have "\<dots> = min (nat n) sz"
    using n sz by (auto simp: min_def)
  finally show ?thesis .
qed

lemma array_splice1_in_range:
  "0 \<le> i \<Longrightarrow> i < int (length arr) \<Longrightarrow>
   array_splice1 i arr = (Some (arr ! nat i), take (nat i) arr @ drop (Suc (nat i)) arr)"
  by (simp add: array_splice1_def Let_def min_def)







section \<open>Facts about reduce\<close>

lemma reduce_loop_started:
  "foldl (\<lambda>st (key, val).
       case st of None \<Rightarrow> Some (as_T val) | Some a \<Rightarrow> Some (fn a val key this))
     (Some a0) es
   = Some (foldl (\<lambda>a (key, val). fn a val key this) a0 es)"
  by (induction es arbitrary: a0) (auto split: prod.splits)

lemma reduce_fold_or_error:
  "(map_entries this = (k0, v0) # rest \<longrightarrow>
      reduce as_T fn None this
        = Inr (foldl (\<lambda>a (key, val). fn a val key this) (as_T v0) rest))
   \<and> (map_entries this = [] \<longrightarrow>
      reduce as_T fn None this
        = Inl (TypeError ''Reduce of empty collection with no initial value''))
   \<and> reduce as_T fn (Some init) this
        = Inr (foldl (\<lambda>a (key, val). fn a val key this) init (map_entries this))"
  by (simp add: reduce_def reduce_loop_started)

section \<open>Facts about first and last\<close>

lemma first_last_integer_counts:
  assumes size: "map_size this \<le> 2 ^ 53 - 1"
  shows "first None this = One (case map_values this of [] \<Rightarrow> None | v # _ \<Rightarrow> Some v)
   \<and> (0 \<le> n \<longrightarrow>
        first (Some (Num (of_int n))) this
          = Many (map Some (take (min (nat n) (map_size this)) (map_values this))))
   \<and> first (Some (Num (of_int (- n)))) this = last_coll (Some (Num (of_int n))) this
   \<and> last_coll (Some (Num (of_int (- n)))) this = first (Some (Num (of_int n))) this
   \<and> (0 \<le> n \<longrightarrow>
        last_coll (Some (Num (of_int n))) this
          = Many (map Some (drop (map_size this - min (nat n) (map_size this)) (map_values this))))
   \<and> firstKey None this = One (case map_keys this of [] \<Rightarrow> None | k # _ \<Rightarrow> Some k)
   \<and> (0 \<le> n \<longrightarrow>
        firstKey (Some (Num (of_int n))) this
          = Many (map Some (take (min (nat n) (map_size this)) (map_keys this))))
   \<and> firstKey (Some (Num (of_int (- n)))) this = lastKey (Some (Num (of_int n))) this
   \<and> lastKey (Some (Num (of_int (- n)))) this = firstKey (Some (Num (of_int n))) this
   \<and> (0 \<le> n \<longrightarrow>
        lastKey (Some (Num (of_int n))) this
          = Many (map Some (drop (map_size this - min (nat n) (map_size this)) (map_keys this))))"
proof (intro conjI impI)
  show "first None this = One (case map_values this of [] \<Rightarrow> None | v # _ \<Rightarrow> Some v)"
    by (simp add: iter_next_def split: list.splits)
  show "firstKey None this = One (case map_keys this of [] \<Rightarrow> None | k # _ \<Rightarrow> Some k)"
    by (simp add: iter_next_def split: list.splits)
  have tl: "0 \<le> m \<Longrightarrow> ToLength (Math_min (Num (of_nat (map_size this))) (Num (of_int m)))
      = min (nat m) (map_size this)" for m
    by (rule ToLength_min_size [OF _ size])
  have lenv: "length (map_values this) = map_size this"
    by (simp add: map_size_def map_values_def)
  have lenk: "length (map_keys this) = map_size this"
    by (simp add: map_size_def map_keys_def)
  have cnn: "\<not> number_negative (Num (of_int m))" if "0 \<le> m" for m :: int
    using that by simp
  have f: "first (Some (Num (of_int m))) this
      = Many (map Some (take (min (nat m) (map_size this)) (map_values this)))"
    if "0 \<le> m" for m
  proof -
    have "first (Some (Num (of_int m))) this
        = Many (array_from_iter (min (nat m) (map_size this)) (map_values this))"
      by (simp only: first.simps Let_def cnn [OF that] if_False tl [OF that])
    then show ?thesis by (simp add: array_from_iter_take lenv)
  qed
  have fk: "firstKey (Some (Num (of_int m))) this
      = Many (map Some (take (min (nat m) (map_size this)) (map_keys this)))"
    if "0 \<le> m" for m
  proof -
    have "firstKey (Some (Num (of_int m))) this
        = Many (array_from_iter (min (nat m) (map_size this)) (map_keys this))"
      by (simp only: firstKey.simps Let_def cnn [OF that] if_False tl [OF that])
    then show ?thesis by (simp add: array_from_iter_take lenk)
  qed
  have c0: "\<not> number_negative (Num (of_int 0))" "number_falsy (Num (of_int 0))"
    by simp_all
  have cpos: "\<not> number_negative (Num (of_int m))" "\<not> number_falsy (Num (of_int m))"
    if "0 < m" for m :: int
    using that by simp_all
  have l: "last_coll (Some (Num (of_int m))) this
      = Many (map Some (drop (map_size this - min (nat m) (map_size this)) (map_values this)))"
    if "0 \<le> m" for m
  proof (cases "m = 0")
    case True
    have "last_coll (Some (Num (of_int 0))) this = Many []"
      by (simp only: last_coll.simps Let_def c0 if_True if_False)
    with True show ?thesis by (simp add: lenv)
  next
    case False
    with that have pos: "0 < m" by simp
    show ?thesis
      by (simp only: last_coll.simps Let_def cpos [OF pos] if_False
          array_slice_from_neg [OF pos] lenv)
  qed
  have lk: "lastKey (Some (Num (of_int m))) this
      = Many (map Some (drop (map_size this - min (nat m) (map_size this)) (map_keys this)))"
    if "0 \<le> m" for m
  proof (cases "m = 0")
    case True
    have "lastKey (Some (Num (of_int 0))) this = Many []"
      by (simp only: lastKey.simps Let_def c0 if_True if_False)
    with True show ?thesis by (simp add: lenk)
  next
    case False
    with that have pos: "0 < m" by simp
    show ?thesis
      by (simp only: lastKey.simps Let_def cpos [OF pos] if_False
          array_slice_from_neg [OF pos] lenk)
  qed
  show "first (Some (Num (of_int (- n)))) this = last_coll (Some (Num (of_int n))) this"
    by (cases "n < 0"; cases "n = 0"; simp add: ToLength_def)
  show "last_coll (Some (Num (of_int (- n)))) this = first (Some (Num (of_int n))) this"
    by (cases "n < 0"; cases "n = 0"; simp add: ToLength_def)
  show "firstKey (Some (Num (of_int (- n)))) this = lastKey (Some (Num (of_int n))) this"
    by (cases "n < 0"; cases "n = 0"; simp add: ToLength_def)
  show "lastKey (Some (Num (of_int (- n)))) this = firstKey (Some (Num (of_int n))) this"
    by (cases "n < 0"; cases "n = 0"; simp add: ToLength_def)
  show "first (Some (Num (of_int n))) this
      = Many (map Some (take (min (nat n) (map_size this)) (map_values this)))" if "0 \<le> n"
    using that by (rule f)
  show "firstKey (Some (Num (of_int n))) this
      = Many (map Some (take (min (nat n) (map_size this)) (map_keys this)))" if "0 \<le> n"
    using that by (rule fk)
  show "last_coll (Some (Num (of_int n))) this
      = Many (map Some (drop (map_size this - min (nat n) (map_size this)) (map_values this)))"
    if "0 \<le> n"
    using that by (rule l)
  show "lastKey (Some (Num (of_int n))) this
      = Many (map Some (drop (map_size this - min (nat n) (map_size this)) (map_keys this)))"
    if "0 \<le> n"
    using that by (rule lk)
qed

lemma last_fraction_below_one:
  assumes r: "0 < r" "r < 1"
  shows "last_coll (Some (Num r)) this = Many (map Some (map_values this))
    \<and> lastKey (Some (Num r)) this = Many (map Some (map_keys this))
    \<and> first (Some (Num (- r))) this = Many (map Some (map_values this))
    \<and> firstKey (Some (Num (- r))) this = Many (map Some (map_keys this))"
proof -
  have "\<lfloor>r\<rfloor> = 0" using r by (simp add: floor_eq_iff)
  then have slice: "array_slice_from (number_negate (Num r)) arr = arr" for arr :: "'x list"
    using r by (simp add: array_slice_from_def)
  have c: "\<not> number_negative (Num r)" "\<not> number_falsy (Num r)"
    "number_negative (Num (- r))" "number_negate (Num (- r)) = Num r"
    using r by simp_all
  have l: "last_coll (Some (Num r)) this = Many (map Some (map_values this))"
    by (simp only: last_coll.simps Let_def c if_False slice)
  have lk: "lastKey (Some (Num r)) this = Many (map Some (map_keys this))"
    by (simp only: lastKey.simps Let_def c if_False slice)
  have f: "first (Some (Num (- r))) this = Many (map Some (map_values this))"
    by (simp only: first.simps c if_True l)
  have fk: "firstKey (Some (Num (- r))) this = Many (map Some (map_keys this))"
    by (simp only: firstKey.simps c if_True lk)
  from l lk f fk show ?thesis by (intro conjI)
qed

section \<open>Facts about at\<close>

lemma at_coll_floor: "at_coll (Num r) this = at_coll (Num (of_int \<lfloor>r\<rfloor>)) this"
  by (simp add: at_coll_def)

lemma at_coll_integer:
  "at_coll (Num (of_int i)) this
     = (if 0 \<le> i \<and> i < int (map_size this) then Some (map_values this ! nat i)
        else if - int (map_size this) \<le> i \<and> i < 0
          then Some (map_values this ! nat (int (map_size this) + i))
        else None)"
  by (auto simp: at_coll_def Let_def map_size_def map_values_def)

lemma at_coll_not_finite:
  "at_coll PosInfinity this = None \<and> at_coll NegInfinity this = None
   \<and> at_coll NaN this = at_coll (Num 0) this"
  by (simp add: at_coll_def)

section \<open>Facts about random\<close>

lemma random_index_range:
  "0 \<le> r \<Longrightarrow> r < 1 \<Longrightarrow> 0 < len \<Longrightarrow>
   0 \<le> random_index r len \<and> random_index r len < int len"
proof -
  assume r: "0 \<le> r" "r < 1" and len: "0 < len"
  have "0 \<le> r * of_nat len" using r by simp
  then have lo: "0 \<le> random_index r len" by (simp add: random_index_def)
  have "r * of_nat len < 1 * of_nat len" using r len by (intro mult_strict_right_mono) simp_all
  then have "r * of_nat len < of_int (int len)" by simp
  then have "random_index r len < int len" unfolding random_index_def by (simp only: floor_less_iff)
  with lo show ?thesis by simp
qed

lemma array_splice1_empty: "array_splice1 (random_index r 0) [] = (None, [])"
  by (simp add: array_splice1_def random_index_def)

lemma random_draws_exhausted: "random_draws rnd j n [] = replicate n None"
  by (induction n arbitrary: j) (simp_all add: array_splice1_empty)

lemma random_draws_positions:
  assumes range: "\<forall>j. 0 \<le> rnd j \<and> rnd j < 1"
  shows "n \<le> length qs \<Longrightarrow> distinct qs \<Longrightarrow>
    \<exists>ps. random_draws rnd j n (map ((!) orig) qs) = map (\<lambda>p. Some (orig ! p)) ps
        \<and> distinct ps \<and> set ps \<subseteq> set qs \<and> length ps = n"
proof (induction n arbitrary: j qs)
  case 0
  then show ?case by simp
next
  case (Suc n)
  let ?len = "length qs"
  let ?i = "random_index (rnd j) (length (map ((!) orig) qs))"
  from Suc.prems have pos: "0 < ?len" by (cases qs) simp_all
  have i: "0 \<le> ?i" "?i < int ?len"
    using random_index_range [of "rnd j" ?len] range pos by simp_all
  define k where "k = nat ?i"
  have k: "k < ?len" using i by (simp add: k_def)
  let ?qs' = "take k qs @ drop (Suc k) qs"
  have splice: "array_splice1 ?i (map ((!) orig) qs)
      = (Some (orig ! (qs ! k)), map ((!) orig) ?qs')"
    using array_splice1_in_range [of ?i "map ((!) orig) qs"] i k
    by (simp add: k_def take_map drop_map)
  have id: "qs = take k qs @ qs ! k # drop (Suc k) qs" using k by (rule id_take_nth_drop)
  have "distinct (take k qs @ qs ! k # drop (Suc k) qs)"
    using Suc.prems(2) id by simp
  then have d': "distinct ?qs'" and notin: "qs ! k \<notin> set ?qs'"
    by auto
  have sub: "set ?qs' \<subseteq> set qs"
    using set_take_subset [of k qs] set_drop_subset [of "Suc k" qs] by auto
  have len': "n \<le> length ?qs'" using Suc.prems(1) k by simp
  from Suc.IH [OF len' d', of "Suc j"] obtain ps where
    ps: "random_draws rnd (Suc j) n (map ((!) orig) ?qs') = map (\<lambda>p. Some (orig ! p)) ps"
      "distinct ps" "set ps \<subseteq> set ?qs'" "length ps = n" by blast
  have "random_draws rnd j (Suc n) (map ((!) orig) qs)
      = map (\<lambda>p. Some (orig ! p)) (qs ! k # ps)"
    using splice ps(1) by simp
  moreover have "distinct (qs ! k # ps)" using ps(2,3) notin by auto
  moreover have "set (qs ! k # ps) \<subseteq> set qs" using ps(3) sub k by auto
  moreover have "length (qs ! k # ps) = Suc n" using ps(4) by simp
  ultimately show ?case by blast
qed

lemma random_draws_distinct:
  assumes range: "\<forall>j. 0 \<le> rnd j \<and> rnd j < 1" and n: "n \<le> length arr"
  shows "\<exists>ps. random_draws rnd 0 n arr = map (\<lambda>p. Some (arr ! p)) ps
        \<and> distinct ps \<and> set ps \<subseteq> {..<length arr} \<and> length ps = n"
proof -
  have "map ((!) arr) [0..<length arr] = arr" by (rule map_nth)
  with random_draws_positions [OF range, of n "[0..<length arr]" 0 arr] n
  show ?thesis by (simp add: lessThan_atLeast0)
qed

lemma random_without_replacement:
  assumes range: "\<forall>j. 0 \<le> rnd j \<and> rnd j < 1" and n: "0 < n"
  shows "\<exists>ps. random rnd (Some n) this = Many (map (\<lambda>p. Some (map_values this ! p)) ps)
      \<and> distinct ps \<and> set ps \<subseteq> {..<map_size this}
      \<and> length ps = min (nat n) (map_size this)"
proof (cases "map_size this = 0")
  case True
  then have "random rnd (Some n) this = Many []"
    by (simp add: random_def map_size_def map_values_def)
  with True show ?thesis by simp
next
  case False
  let ?arr = "map_values this"
  have len: "length ?arr = map_size this" by (simp add: map_values_def map_size_def)
  have m: "nat (min n (int (length ?arr))) = min (nat n) (map_size this)"
    using n len by (auto simp: min_def)
  then have "nat (min n (int (length ?arr))) \<le> length ?arr" using len by simp
  from random_draws_distinct [OF range this] obtain ps where
    "random_draws rnd 0 (nat (min n (int (length ?arr)))) ?arr = map (\<lambda>p. Some (?arr ! p)) ps"
    "distinct ps" "set ps \<subseteq> {..<length ?arr}" "length ps = nat (min n (int (length ?arr)))"
    by blast
  moreover have "random rnd (Some n) this
      = Many (random_draws rnd 0 (nat (min n (int (length ?arr)))) ?arr)"
    using False n len by (auto simp: random_def Let_def)
  ultimately show ?thesis using m len by auto
qed

section \<open>Facts about sweep\<close>

lemma map_entries_nth:
  "i < length md \<Longrightarrow> md ! i = Some e \<Longrightarrow>
   map_entries (drop i md) = e # map_entries (drop (Suc i) md)"
  by (simp add: Cons_nth_drop_Suc [symmetric])

lemma map_entries_nth_None:
  "i < length md \<Longrightarrow> md ! i = None \<Longrightarrow> map_entries (drop i md) = map_entries (drop (Suc i) md)"
  by (simp add: Cons_nth_drop_Suc [symmetric])

lemma map_delete_at:
  "map_ok md \<Longrightarrow> i < length md \<Longrightarrow> md ! i = Some (key, val) \<Longrightarrow>
   drop (Suc i) (map_delete key md) = drop (Suc i) md"
proof (induction key md arbitrary: i rule: map_delete.induct)
  case (1 key)
  then show ?case by simp
next
  case (2 key md)
  then show ?case by (cases i) (auto simp: map_ok_def map_keys_def)
next
  case (3 key k v md)
  show ?case
  proof (cases i)
    case 0
    with 3 show ?thesis by simp
  next
    case (Suc j)
    with "3.prems" have j: "j < length md" "md ! j = Some (key, val)" by auto
    then have "Some (key, val) \<in> set md" by (metis nth_mem)
    then have "key \<in> fst ` set (map_entries md)"
      by (induction md rule: map_entries.induct) (auto simp: image_iff)
    with "3.prems" have "k \<noteq> key" by (auto simp: map_ok_def map_keys_def)
    moreover from "3.prems" have "map_ok md" by (auto simp: map_ok_def map_keys_def)
    ultimately show ?thesis using "3.IH" [of j] j Suc by simp
  qed
qed

lemma sweep_loop_snapshot:
  "map_ok this \<Longrightarrow>
   sweep_loop fn i this
     = foldl (\<lambda>md (key, val). if fn val key md then map_delete key md else md) this
         (map_entries (drop i this))"
proof (induction fn i this rule: sweep_loop.induct)
  case (1 fn i this)
  show ?case
  proof (cases "i < length this")
    case False
    then show ?thesis by (simp add: sweep_loop.simps [of fn i this])
  next
    case True
    show ?thesis
    proof (cases "this ! i")
      case None
      with True 1 show ?thesis
        by (simp add: sweep_loop.simps [of fn i this] map_entries_nth_None)
    next
      case (Some e)
      obtain key val where e: "e = (key, val)" by (cases e)
      show ?thesis
      proof (cases "fn val key this")
        case yes: True
        have ok: "map_ok (map_delete key this)" using "1.prems" by (rule map_ok_map_delete)
        have "sweep_loop fn i this = sweep_loop fn (Suc i) (map_delete key this)"
          using True Some e yes by (simp add: sweep_loop.simps [of fn i this])
        also have "\<dots> = foldl (\<lambda>md (key, val). if fn val key md then map_delete key md else md)
            (map_delete key this) (map_entries (drop (Suc i) (map_delete key this)))"
          using "1.IH"(2) [OF True Some e [symmetric] yes ok] .
        also have "drop (Suc i) (map_delete key this) = drop (Suc i) this"
          using map_delete_at [OF "1.prems" True] Some e by simp
        finally show ?thesis
          using True Some e yes by (simp add: map_entries_nth)
      next
        case no: False
        have "sweep_loop fn i this = sweep_loop fn (Suc i) this"
          using True Some e no by (simp add: sweep_loop.simps [of fn i this])
        also have "\<dots> = foldl (\<lambda>md (key, val). if fn val key md then map_delete key md else md)
            this (map_entries (drop (Suc i) this))"
          using "1.IH"(3) [OF True Some e [symmetric] no "1.prems"] .
        finally show ?thesis
          using True Some e no by (simp add: map_entries_nth)
      qed
    qed
  qed
qed

lemma sweep_fold_ok:
  "map_ok md \<Longrightarrow>
   map_ok (foldl (\<lambda>md (key, val). if fn val key md then map_delete key md else md) md es)"
  by (induction es arbitrary: md) (auto simp: map_ok_map_delete)

lemma sweep_fold_keys:
  "map_ok md \<Longrightarrow>
   set (map_keys (foldl (\<lambda>md (key, val). if fn val key md then map_delete key md else md) md es))
     \<subseteq> set (map_keys md)"
proof (induction es arbitrary: md)
  case Nil
  then show ?case by simp
next
  case (Cons e es)
  obtain k v where e: "e = (k, v)" by (cases e)
  have sub: "set (map_keys (map_delete k md)) \<subseteq> set (map_keys md)"
    using Cons.prems by (auto simp: map_keys_def map_entries_map_delete_filter)
  show ?case
  proof (cases "fn v k md")
    case True
    with Cons.IH [of "map_delete k md"] Cons.prems sub e show ?thesis
      by (auto simp: map_ok_map_delete)
  next
    case False
    with Cons.IH [of md] Cons.prems e show ?thesis by auto
  qed
qed

lemma sweep_fold_pure:
  "map_ok md \<Longrightarrow>
   map_entries (foldl (\<lambda>md (key, val). if P key val then map_delete key md else md) md es)
     = filter (\<lambda>e. fst e \<notin> fst ` {e \<in> set es. P (fst e) (snd e)}) (map_entries md)"
proof (induction es arbitrary: md)
  case Nil
  then show ?case by simp
next
  case (Cons e es)
  obtain k v where e: "e = (k, v)" by (cases e)
  show ?case
  proof (cases "P k v")
    case True
    have "map_entries (foldl (\<lambda>md (key, val). if P key val then map_delete key md else md)
             (map_delete k md) es)
        = filter (\<lambda>e. fst e \<notin> fst ` {e \<in> set es. P (fst e) (snd e)})
            (filter (\<lambda>e. fst e \<noteq> k) (map_entries md))"
      using Cons.IH [of "map_delete k md"] Cons.prems
      by (simp add: map_ok_map_delete map_entries_map_delete_filter)
    also have "\<dots> = filter (\<lambda>e. fst e \<notin> insert k (fst ` {e \<in> set es. P (fst e) (snd e)}))
            (map_entries md)"
      by (auto intro!: filter_cong)
    also have "insert k (fst ` {e \<in> set es. P (fst e) (snd e)})
        = fst ` {e' \<in> set (e # es). P (fst e') (snd e')}"
      using True e by force
    finally show ?thesis using True e by simp
  next
    case False
    have "fst ` {e \<in> set ((k, v) # es). P (fst e) (snd e)} = fst ` {e \<in> set es. P (fst e) (snd e)}"
      using False by auto
    with Cons.IH [of md] Cons.prems False e show ?thesis by simp
  qed
qed

lemma filter_by_own_keys:
  "distinct (map fst al) \<Longrightarrow>
   filter (\<lambda>e. fst e \<notin> fst ` {e \<in> set al. P (fst e) (snd e)}) al
     = filter (\<lambda>(k, v). \<not> P k v) al"
proof (rule filter_cong [OF refl])
  fix e assume d: "distinct (map fst al)" and m: "e \<in> set al"
  have "fst e \<in> fst ` {e \<in> set al. P (fst e) (snd e)} \<longleftrightarrow> P (fst e) (snd e)"
  proof
    assume "fst e \<in> fst ` {e \<in> set al. P (fst e) (snd e)}"
    then obtain e' where e': "e' \<in> set al" "P (fst e') (snd e')" "fst e' = fst e" by auto
    with d m have "e' = e" by (metis eq_key_imp_eq_value prod.collapse)
    with e' show "P (fst e) (snd e)" by simp
  next
    assume "P (fst e) (snd e)"
    with m show "fst e \<in> fst ` {e \<in> set al. P (fst e) (snd e)}" by auto
  qed
  then show "(fst e \<notin> fst ` {e \<in> set al. P (fst e) (snd e)}) = (case e of (k, v) \<Rightarrow> \<not> P k v)"
    by (cases e) auto
qed

section \<open>Facts about intersect and difference\<close>

lemma fold_set_if_keys:
  "set (map_keys (foldl (\<lambda>coll (k, v). if Q k then map_set k v coll else coll) md es))
     = set (map_keys md) \<union> {k \<in> fst ` set es. Q k}"
proof (induction es arbitrary: md)
  case Nil
  then show ?case by simp
next
  case (Cons e es)
  obtain k v where e: "e = (k, v)" by (cases e)
  show ?case
    using Cons.IH [of "map_set k v md"] Cons.IH [of md]
    by (cases "Q k") (auto simp: e map_keys_map_set)
qed

lemma fold_set_if_get:
  "distinct (map fst es) \<Longrightarrow>
   map_get k (foldl (\<lambda>coll (k, v). if Q k then map_set k v coll else coll) md es)
     = (if k \<in> fst ` set es \<and> Q k then map_of es k else map_get k md)"
proof (induction es arbitrary: md)
  case Nil
  then show ?case by simp
next
  case (Cons e es)
  obtain k0 v0 where e: "e = (k0, v0)" by (cases e)
  from Cons.prems have d: "distinct (map fst es)" and fresh: "k0 \<notin> fst ` set es"
    by (simp_all add: e)
  show ?case
  proof (cases "Q k0")
    case True
    with Cons.IH [OF d, of "map_set k0 v0 md"] fresh show ?thesis
      by (auto simp: e map_get_map_set)
  next
    case False
    with Cons.IH [OF d, of md] fresh show ?thesis
      by (auto simp: e)
  qed
qed

section \<open>Facts about equals and sort\<close>

lemma equals_loop_iff:
  "equals_loop strict_eq es coll
     \<longleftrightarrow> (\<forall>(k, v) \<in> set es. \<exists>v'. map_get k coll = Some v' \<and> strict_eq v v')"
  by (induction es) (auto simp: map_has_iff_get split: option.splits if_splits)


section \<open>Facts about the caches\<close>

lemma cache_ok_set_cached: "cache_ok (set_cached key val c)"
  by (simp add: cache_ok_def set_cached_def)

lemma cache_ok_delete_cached: "cache_ok (snd (delete_cached key c))"
  by (simp add: cache_ok_def delete_cached_def)

lemma array_current:
  "cache_ok c \<Longrightarrow>
   fst (array c) = map_values (mapData c) \<and> mapData (snd (array c)) = mapData c
   \<and> cache_ok (snd (array c))"
  by (auto simp: cache_ok_def array_def split: option.splits)

lemma keyArray_current:
  "cache_ok c \<Longrightarrow>
   fst (keyArray c) = map_keys (mapData c) \<and> mapData (snd (keyArray c)) = mapData c
   \<and> cache_ok (snd (keyArray c))"
  by (auto simp: cache_ok_def keyArray_def split: option.splits)

lemma cache_ok_run_call: "cache_ok c \<Longrightarrow> cache_ok (run_call call c)"
  by (cases call)
    (simp_all add: cache_ok_set_cached cache_ok_delete_cached array_current keyArray_current)

lemma cache_ok_run_calls: "cache_ok c \<Longrightarrow> cache_ok (run_calls calls c)"
  unfolding run_calls_def by (induction calls arbitrary: c) (simp_all add: cache_ok_run_call)

lemma cache_ok_new_cached: "cache_ok (new_cached es)"
  by (simp add: cache_ok_def new_cached_def)

lemma mapData_set_fold:
  "mapData (foldl (\<lambda>c (k, v). set_cached k v c) c es)
     = foldl (\<lambda>md (k, v). map_set k v md) (mapData c) es"
  by (induction es arbitrary: c) (auto simp: set_cached_def)

lemma mapData_new_cached: "mapData (new_cached es) = map_new es"
  by (simp add: new_cached_def mapData_set_fold map_new_def)

section \<open>Claims\<close>

text \<open>
  C1. The code at the input where it leaves the claim: with \<open>undefined\<close> passed as the
  initial value, \<open>reduce\<close> on an empty collection returns the error "Reduce of empty
  collection with no initial value", and on \<open>{a: 1, b: 2}\<close> it starts from the first
  value and calls \<open>fn\<close> once, for the second entry only, where a fold from the supplied
  initial value calls it for both entries. The rest of the claim holds
  (\<open>reduce_fold_or_error\<close>).
\<close>

theorem reduce_undefined_initial:
  "reduce id (\<lambda>accumulator val key coll. accumulator + val) None
      (map_new ([] :: (string \<times> int) list))
     = Inl (TypeError ''Reduce of empty collection with no initial value'')
   \<and> reduce (\<lambda>val. [val]) (\<lambda>accumulator val key coll. accumulator @ [val]) None
      (map_new [(''a'', 1::int), (''b'', 2)])
     = Inr [1, 2]
   \<and> reduce (\<lambda>val. 0) (\<lambda>calls val key coll. calls + 1) None
      (map_new [(''a'', 1::int), (''b'', 2)])
     = Inr (1::nat)
   \<and> reduce (\<lambda>val. 0) (\<lambda>calls val key coll. calls + 1) (Some 0)
      (map_new [(''a'', 1::int), (''b'', 2)])
     = Inr (2::nat)"
  by (simp add: reduce_def map_new_def)

text \<open>
  C2, as amended. \<open>sweep(fn)\<close> iterates the live map, and its own deletions neither
  skip nor double-visit an entry: it visits each entry the collection holds at the start of
  the call exactly once, in order, as a loop over a list of the entries taken at the start
  would. It evaluates \<open>fn\<close> on the entry's value and key and on the collection as it
  stands at that moment, with the earlier matches already deleted, and deletes the entry
  when the result is true. It returns the number of entries removed. When the result of
  \<open>fn\<close> does not depend on the collection it is passed, the entries removed are exactly
  those whose value and key satisfy \<open>fn\<close>, the number returned is their number, and
  afterwards \<open>has(k)\<close> is false for every removed key \<open>k\<close>.
\<close>

theorem sweep_live_iteration:
  assumes ok: "map_ok this"
  shows "snd (sweep fn this)
      = foldl (\<lambda>md (key, val). if fn val key md then map_delete key md else md) this
          (map_entries this)
    \<and> fst (sweep fn this)
      = int (card (set (map_keys this) - set (map_keys (snd (sweep fn this)))))
    \<and> ((\<forall>val key c c'. fn val key c = fn val key c') \<longrightarrow>
         map_entries (snd (sweep fn this))
           = filter (\<lambda>(key, val). \<not> fn val key this) (map_entries this)
         \<and> fst (sweep fn this)
           = int (length (filter (\<lambda>(key, val). fn val key this) (map_entries this)))
         \<and> (\<forall>(key, val) \<in> set (map_entries this).
              fn val key this \<longrightarrow> \<not> map_has key (snd (sweep fn this))))"
proof -
  let ?step = "\<lambda>md (key, val). if fn val key md then map_delete key md else md"
  let ?this' = "foldl ?step this (map_entries this)"
  have snap: "snd (sweep fn this) = ?this'"
    using sweep_loop_snapshot [OF ok, of fn 0] by (simp add: sweep_def Let_def)
  have ok': "map_ok (snd (sweep fn this))"
    by (simp only: snap sweep_fold_ok [OF ok])
  have sub: "set (map_keys (snd (sweep fn this))) \<subseteq> set (map_keys this)"
    by (simp only: snap sweep_fold_keys [OF ok])
  have diff: "fst (sweep fn this) = int (map_size this) - int (map_size (snd (sweep fn this)))"
    by (simp add: sweep_def Let_def)
  have le: "map_size (snd (sweep fn this)) \<le> map_size this"
    using card_mono [OF finite_set sub] by (simp only: card_map_keys [OF ok] card_map_keys [OF ok'])
  have "card (set (map_keys this) - set (map_keys (snd (sweep fn this))))
      = card (set (map_keys this)) - card (set (map_keys (snd (sweep fn this))))"
    by (rule card_Diff_subset [OF finite_set sub])
  also have "\<dots> = map_size this - map_size (snd (sweep fn this))"
    by (simp only: card_map_keys [OF ok] card_map_keys [OF ok'])
  finally have count: "fst (sweep fn this)
      = int (card (set (map_keys this) - set (map_keys (snd (sweep fn this)))))"
    using le by (simp only: diff of_nat_diff)
  have pure: "map_entries (snd (sweep fn this))
           = filter (\<lambda>(key, val). \<not> fn val key this) (map_entries this)
         \<and> fst (sweep fn this)
           = int (length (filter (\<lambda>(key, val). fn val key this) (map_entries this)))
         \<and> (\<forall>(key, val) \<in> set (map_entries this).
              fn val key this \<longrightarrow> \<not> map_has key (snd (sweep fn this)))"
    if indep: "\<forall>val key c c'. fn val key c = fn val key c'"
  proof -
    have step: "?step = (\<lambda>md (key, val). if fn val key this then map_delete key md else md)"
    proof (intro ext)
      fix md :: "('a, 'b) mapdata" and e :: "'a \<times> 'b"
      obtain key val where e: "e = (key, val)" by (cases e)
      have "fn val key md = fn val key this" using indep by blast
      then show "?step md e
          = (\<lambda>md (key, val). if fn val key this then map_delete key md else md) md e"
        by (simp only: e prod.case)
    qed
    have d: "distinct (map fst (map_entries this))"
      using ok by (simp add: map_ok_def map_keys_def)
    have "map_entries (snd (sweep fn this))
        = map_entries (foldl (\<lambda>md (key, val). if fn val key this then map_delete key md else md)
            this (map_entries this))"
      by (simp only: snap step)
    also have "\<dots> = filter (\<lambda>e. fst e \<notin> fst ` {e \<in> set (map_entries this). fn (snd e) (fst e) this})
            (map_entries this)"
      by (rule sweep_fold_pure [OF ok, of "\<lambda>key val. fn val key this"])
    also have "\<dots> = filter (\<lambda>(key, val). \<not> fn val key this) (map_entries this)"
      by (rule filter_by_own_keys [OF d, of "\<lambda>key val. fn val key this"])
    finally have ents: "map_entries (snd (sweep fn this))
        = filter (\<lambda>(key, val). \<not> fn val key this) (map_entries this)" .
    have "length (filter (\<lambda>(key, val). fn val key this) (map_entries this))
        + length (filter (\<lambda>(key, val). \<not> fn val key this) (map_entries this))
        = length (map_entries this)"
      using sum_length_filter_compl [of "\<lambda>(key, val). fn val key this" "map_entries this"]
      by (simp add: case_prod_unfold)
    then have c: "fst (sweep fn this)
        = int (length (filter (\<lambda>(key, val). fn val key this) (map_entries this)))"
      by (simp add: diff map_size_def ents)
    have "\<forall>(key, val) \<in> set (map_entries this).
        fn val key this \<longrightarrow> \<not> map_has key (snd (sweep fn this))"
    proof (clarify)
      fix key val
      assume m: "(key, val) \<in> set (map_entries this)" and f: "fn val key this"
        and h: "map_has key (snd (sweep fn this))"
      from h obtain val' where m': "(key, val') \<in> set (map_entries this)" "\<not> fn val' key this"
        by (auto simp: map_has_def map_keys_def ents)
      with d m have "val' = val" by (metis eq_key_imp_eq_value)
      with m' f show False by simp
    qed
    with ents c show ?thesis by simp
  qed
  show ?thesis
    apply (rule conjI [OF snap])
    apply (rule conjI [OF count])
    apply (rule impI)
    apply (rule pure)
    apply assumption
    done
qed

theorem sweep_live_iteration_witness:
  "map_ok (map_new [(''a'', 1::int), (''b'', 2), (''c'', 3)])
   \<and> map_entries (snd (sweep (\<lambda>val key c. val = 2) (map_new [(''a'', 1::int), (''b'', 2), (''c'', 3)])))
       = [(''a'', 1), (''c'', 3)]
   \<and> fst (sweep (\<lambda>val key c. val = 2) (map_new [(''a'', 1::int), (''b'', 2), (''c'', 3)])) = 1
   \<and> \<not> map_has ''b'' (snd (sweep (\<lambda>val key c. val = 2) (map_new [(''a'', 1::int), (''b'', 2), (''c'', 3)])))"
proof -
  have ok: "map_ok (map_new [(''a'', 1::int), (''b'', 2), (''c'', 3)])" by (rule map_ok_map_new)
  have e: "map_entries (map_new [(''a'', 1::int), (''b'', 2), (''c'', 3)])
      = [(''a'', 1), (''b'', 2), (''c'', 3)]"
    by (simp add: map_new_def)
  show ?thesis
    using sweep_live_iteration [OF ok, of "\<lambda>val key c. val = 2"] ok
    by (simp add: map_new_def map_has_def map_keys_def)
qed

text \<open>
  C2 as stated fails for a predicate that reads the collection: on \<open>{a: 1, b: 2}\<close> both
  entries satisfy \<open>(val, key, coll) => coll.size > 1\<close> against the state at the start of
  the call, and \<open>sweep\<close> removes only \<open>a\<close> and returns 1.
\<close>

theorem sweep_start_state_counterexample:
  "map_ok (map_new [(''a'', 1::int), (''b'', 2)])
   \<and> more_than_one_left 1 ''a'' (map_new [(''a'', 1::int), (''b'', 2)])
   \<and> more_than_one_left 2 ''b'' (map_new [(''a'', 1::int), (''b'', 2)])
   \<and> map_entries (snd (sweep more_than_one_left (map_new [(''a'', 1::int), (''b'', 2)])))
       = [(''b'', 2)]
   \<and> fst (sweep more_than_one_left (map_new [(''a'', 1::int), (''b'', 2)])) = 1
   \<and> map_has ''b'' (snd (sweep more_than_one_left (map_new [(''a'', 1::int), (''b'', 2)])))"
  by code_simp

text \<open>
  C3. The code at the input where it leaves the claim: on \<open>{a: 1, b: 2, c: 3}\<close>,
  \<open>last(0.5)\<close> returns all three values and \<open>lastKey(0.5)\<close> all three keys, where
  \<open>first(0.5)\<close> and \<open>firstKey(0.5)\<close> return the empty array, and \<open>last(0)\<close> the empty
  array and \<open>last(1)\<close> one value: the test \<open>!amount\<close> lets an amount between 0 and 1
  through to \<open>arr.slice(-amount)\<close>, which truncates it to 0 and copies the whole array.
  \<open>first(-0.5)\<close> returns the three values as well. On whole amounts the claim holds
  (\<open>first_last_integer_counts\<close>).
\<close>

theorem last_fraction_returns_all:
  "last_coll (Some (Num (1 / 2))) (map_new [(''a'', 1::int), (''b'', 2), (''c'', 3)])
     = Many [Some 1, Some 2, Some 3]
   \<and> lastKey (Some (Num (1 / 2))) (map_new [(''a'', 1::int), (''b'', 2), (''c'', 3)])
     = Many [Some ''a'', Some ''b'', Some ''c'']
   \<and> first (Some (Num (1 / 2))) (map_new [(''a'', 1::int), (''b'', 2), (''c'', 3)]) = Many []
   \<and> firstKey (Some (Num (1 / 2))) (map_new [(''a'', 1::int), (''b'', 2), (''c'', 3)]) = Many []
   \<and> last_coll (Some (Num 0)) (map_new [(''a'', 1::int), (''b'', 2), (''c'', 3)]) = Many []
   \<and> last_coll (Some (Num 1)) (map_new [(''a'', 1::int), (''b'', 2), (''c'', 3)])
     = Many [Some 3]
   \<and> first (Some (Num (- (1 / 2)))) (map_new [(''a'', 1::int), (''b'', 2), (''c'', 3)])
     = Many [Some 1, Some 2, Some 3]"
  by code_simp

text \<open>
  C4. The code at the input where it leaves the claim: on \<open>{a: 1, b: 2, c: 3}\<close>,
  \<open>at(-1.5)\<close> is 2, the value \<open>at(-2)\<close> returns, where \<open>at(-1)\<close> is 3 and
  \<open>Array.prototype.at\<close>, which truncates toward zero, returns 3 for the index -1.5 on
  the array of values; \<open>keyAt\<close> likewise. \<open>Math.floor\<close> rounds a negative fraction
  away from zero.
\<close>

theorem at_floors_negative_fraction:
  "at_coll (Num (- (3 / 2))) (map_new [(''a'', 1::int), (''b'', 2), (''c'', 3)]) = Some 2
   \<and> at_coll (Num (- 1)) (map_new [(''a'', 1::int), (''b'', 2), (''c'', 3)]) = Some 3
   \<and> Array_at (map_values (map_new [(''a'', 1::int), (''b'', 2), (''c'', 3)])) (Num (- (3 / 2))) = Some 3
   \<and> keyAt (Num (- (3 / 2))) (map_new [(''a'', 1::int), (''b'', 2), (''c'', 3)]) = Some ''b''
   \<and> keyAt (Num (- 1)) (map_new [(''a'', 1::int), (''b'', 2), (''c'', 3)]) = Some ''c''"
  by code_simp

text \<open>
  C5. The caching version of \<open>random\<close> at the input where it leaves the claim: on a
  collection of size 1 and with every \<open>Math.random()\<close> returning 0, \<open>random(3)\<close>
  returns an array of length 3, the value followed by two \<open>undefined\<close>, and
  \<open>randomKey(3)\<close> likewise; the version without the cache returns one item.
\<close>

theorem random_cached_overdraws:
  "fst (random_cached (\<lambda>j. 0) (Some 3) (new_cached [(''a'', 1::int)]))
      = Many [Some 1, None, None]
   \<and> map_size (mapData (new_cached [(''a'', 1::int)])) = 1
   \<and> fst (randomKey_cached (\<lambda>j. 0) (Some 3) (new_cached [(''a'', 1::int)]))
      = Many [Some ''a'', None, None]
   \<and> random (\<lambda>j. 0) (Some 3) (map_new [(''a'', 1::int)]) = Many [Some 1]
   \<and> randomKey (\<lambda>j. 0) (Some 3) (map_new [(''a'', 1::int)]) = Many [Some ''a'']"
  by code_simp

text \<open>
  C6. After the constructor and any sequence of \<open>set\<close>, \<open>delete\<close>, \<open>array()\<close> and
  \<open>keyArray()\<close> calls, \<open>array()\<close> returns the collection's current values and
  \<open>keyArray()\<close> its current keys, in the current iteration order. \<open>set\<close> and
  \<open>delete\<close> leave both caches empty, and \<open>array()\<close> and \<open>keyArray()\<close> return a
  cached array when its length is the collection's size and rebuild it otherwise.
\<close>

theorem array_never_stale:
  "fst (array (run_calls calls (new_cached es)))
      = map_values (mapData (run_calls calls (new_cached es)))
   \<and> fst (keyArray (run_calls calls (new_cached es)))
      = map_keys (mapData (run_calls calls (new_cached es)))
   \<and> array_cache (set_cached key val c) = None \<and> keyArray_cache (set_cached key val c) = None
   \<and> mapData (set_cached key val c) = map_set key val (mapData c)
   \<and> array_cache (snd (delete_cached key c)) = None
   \<and> keyArray_cache (snd (delete_cached key c)) = None
   \<and> mapData (snd (delete_cached key c)) = map_delete key (mapData c)
   \<and> (\<forall>a. array_cache c = Some a \<longrightarrow>
         (if length a = map_size (mapData c) then fst (array c) = a
          else fst (array c) = map_values (mapData c)))
   \<and> (\<forall>a. keyArray_cache c = Some a \<longrightarrow>
         (if length a = map_size (mapData c) then fst (keyArray c) = a
          else fst (keyArray c) = map_keys (mapData c)))"
proof -
  have ok: "cache_ok (run_calls calls (new_cached es))"
    by (rule cache_ok_run_calls [OF cache_ok_new_cached])
  show ?thesis
    using array_current [OF ok] keyArray_current [OF ok]
    by (simp add: set_cached_def delete_cached_def array_def keyArray_def)
qed

theorem array_never_stale_witness:
  "fst (array (run_calls [Array, Set ''d'' 4, Array, Delete ''a'', KeyArray, Set ''b'' 5]
          (new_cached [(''a'', 1::int), (''b'', 2), (''c'', 3)])))
      = [5, 3, 4]
   \<and> fst (keyArray (run_calls [Array, Set ''d'' 4, Array, Delete ''a'', KeyArray, Set ''b'' 5]
          (new_cached [(''a'', 1::int), (''b'', 2), (''c'', 3)])))
      = [''b'', ''c'', ''d'']
   \<and> fst (array \<lparr>mapData = map_new [(''a'', 1::int)], array_cache = Some [9],
                  keyArray_cache = None\<rparr>) = [9]
   \<and> fst (array \<lparr>mapData = map_new [(''a'', 1::int)], array_cache = Some [9, 9],
                  keyArray_cache = None\<rparr>) = [1]"
  using array_never_stale [of "[Array, Set ''d'' 4, Array, Delete ''a'', KeyArray, Set ''b'' 5]"
      "[(''a'', 1::int), (''b'', 2), (''c'', 3)]" "''a''" 1
      "\<lparr>mapData = map_new [(''a'', 1::int)], array_cache = Some [9], keyArray_cache = None\<rparr>"]
    array_never_stale [of "[]" "[]" "''a''" 1
      "\<lparr>mapData = map_new [(''a'', 1::int)], array_cache = Some [9, 9], keyArray_cache = None\<rparr>"]
  by (simp add: run_calls_def new_cached_def set_cached_def delete_cached_def array_def
      keyArray_def map_values_def map_keys_def map_size_def map_new_def)

text \<open>
  C7, as amended. For every collection \<open>C\<close>, \<open>C.clone()\<close> is a new container (its
  reference is none of the heap's) holding the entries of \<open>C\<close> in the same order, the
  values themselves and not copies of them; no object of the heap is changed by it, and
  \<open>set\<close> and \<open>delete\<close> on the clone leave \<open>C\<close> as it is. \<open>C.clone().equals(C)\<close> is
  true exactly when every value of \<open>C\<close> is strictly equal to itself.
\<close>

theorem clone_shallow_copy:
  assumes r: "this < length h" and ok: "map_ok (h ! this)"
  shows "\<exists>c h'. clone this h = (c, h')
      \<and> c = length h \<and> c \<noteq> this \<and> length h' = Suc (length h)
      \<and> (\<forall>r < length h. h' ! r = h ! r)
      \<and> map_entries (h' ! c) = map_entries (h ! this)
      \<and> (equals strict_eq c (Some this) h'
           \<longleftrightarrow> (\<forall>v \<in> set (map_values (h ! this)). strict_eq v v))
      \<and> (\<forall>key val. snd (set_coll c key val h') ! this = h ! this)
      \<and> (\<forall>key. snd (delete_coll c key h') ! this = h ! this)"
proof -
  let ?c = "length h"
  let ?h' = "h @ [map_new (map_entries (h ! this))]"
  have cl: "clone this h = (?c, ?h')" by (simp add: clone_def new_Collection_def)
  have ne: "?c \<noteq> this" using r by simp
  have old: "\<forall>r < length h. ?h' ! r = h ! r" by (simp add: nth_append)
  have ents: "map_entries (?h' ! ?c) = map_entries (h ! this)"
    using ok by (simp add: map_new_entries_ok)
  have this': "?h' ! this = h ! this" using r by (simp add: nth_append)
  have "equals_loop strict_eq (map_entries (?h' ! ?c)) (?h' ! this)
      \<longleftrightarrow> (\<forall>(k, v) \<in> set (map_entries (h ! this)). strict_eq v v)"
    unfolding ents this' equals_loop_iff using ok by (auto simp: map_get_own_entry)
  also have "\<dots> \<longleftrightarrow> (\<forall>v \<in> set (map_values (h ! this)). strict_eq v v)"
    by (auto simp: map_values_def)
  finally have loop: "equals_loop strict_eq (map_entries (?h' ! ?c)) (?h' ! this)
      \<longleftrightarrow> (\<forall>v \<in> set (map_values (h ! this)). strict_eq v v)" .
  have "map_size (?h' ! ?c) = map_size (?h' ! this)"
    unfolding this' using ents by (simp add: map_size_def)
  then have eq: "equals strict_eq ?c (Some this) ?h'
      \<longleftrightarrow> (\<forall>v \<in> set (map_values (h ! this)). strict_eq v v)"
    using ne loop by (simp add: equals_def)
  have upd: "(?h'[?c := x]) ! this = h ! this" for x
    using r by (simp add: nth_append)
  have s: "\<forall>key val. snd (set_coll ?c key val ?h') ! this = h ! this"
    unfolding set_coll_def snd_conv using upd by blast
  have d: "\<forall>key. snd (delete_coll ?c key ?h') ! this = h ! this"
    unfolding delete_coll_def snd_conv using upd by blast
  have len: "length ?h' = Suc (length h)" by simp
  show ?thesis
    apply (rule exI [of _ ?c])
    apply (rule exI [of _ ?h'])
    apply (intro conjI)
            apply (rule cl)
           apply (rule refl)
          apply (rule ne)
         apply (rule len)
        apply (rule old)
       apply (rule ents)
      apply (rule eq)
     apply (rule s)
    apply (rule d)
    done
qed

theorem clone_shallow_copy_witness:
  "clone 0 [map_new [(''a'', 1::int), (''b'', 2)]]
      = (1, [map_new [(''a'', 1), (''b'', 2)], map_new [(''a'', 1), (''b'', 2)]])
   \<and> equals (=) 1 (Some 0) (snd (clone 0 [map_new [(''a'', 1::int), (''b'', 2)]]))
   \<and> snd (set_coll 1 ''c'' 3 (snd (clone 0 [map_new [(''a'', 1::int), (''b'', 2)]]))) ! 0
       = map_new [(''a'', 1), (''b'', 2)]
   \<and> snd (delete_coll 1 ''a'' (snd (clone 0 [map_new [(''a'', 1::int), (''b'', 2)]]))) ! 0
       = map_new [(''a'', 1), (''b'', 2)]"
proof -
  have ok: "map_ok ([map_new [(''a'', 1::int), (''b'', 2)]] ! 0)"
    by (simp add: map_ok_map_new)
  show ?thesis
    using clone_shallow_copy [of 0 "[map_new [(''a'', 1::int), (''b'', 2)]]" "(=)", OF _ ok]
    by (simp add: clone_def new_Collection_def map_new_def)
qed

text \<open>
  C7 as stated fails on a collection that holds \<open>NaN\<close>: \<open>equals\<close> compares values
  with \<open>!==\<close>, and \<open>NaN !== NaN\<close>.
\<close>

theorem clone_equals_counterexample:
  "\<not> equals strict_equals_number (fst (clone 0 [map_new [(''a'', NaN)]])) (Some 0)
       (snd (clone 0 [map_new [(''a'', NaN)]]))"
  by (simp add: clone_def new_Collection_def map_new_def equals_def map_size_def map_has_def
      map_keys_def map_get_def)



text \<open>
  C9. For collections \<open>A\<close> and \<open>B\<close>: the keys of \<open>A.intersect(B)\<close> are the keys
  present in both, they are the keys of \<open>B.intersect(A)\<close>, and each maps to its value in
  the argument \<open>B\<close>. The keys of \<open>A.difference(B)\<close> are the keys present in exactly
  one of the two, they are the keys of \<open>B.difference(A)\<close>, and each maps to its value in
  the collection that holds it.
\<close>

theorem intersect_difference_keys:
  assumes a: "map_ok A" and b: "map_ok B"
  shows "set (map_keys (intersect A B)) = set (map_keys A) \<inter> set (map_keys B)
    \<and> set (map_keys (intersect A B)) = set (map_keys (intersect B A))
    \<and> (\<forall>k \<in> set (map_keys (intersect A B)). map_get k (intersect A B) = map_get k B)
    \<and> set (map_keys (difference A B))
        = (set (map_keys A) - set (map_keys B)) \<union> (set (map_keys B) - set (map_keys A))
    \<and> set (map_keys (difference A B)) = set (map_keys (difference B A))
    \<and> (\<forall>k \<in> set (map_keys (difference A B)).
          map_get k (difference A B)
            = (if k \<in> set (map_keys A) then map_get k A else map_get k B))"
proof -
  have da: "distinct (map fst (map_entries A))" and db: "distinct (map fst (map_entries B))"
    using a b by (simp_all add: map_ok_def map_keys_def)
  have ki: "set (map_keys (intersect X Y)) = set (map_keys X) \<inter> set (map_keys Y)" for X Y :: "('a, 'b) mapdata"
    using fold_set_if_keys [of "\<lambda>k. map_has k X" "[]" "map_entries Y"]
    by (auto simp: intersect_def map_has_def map_keys_def)
  have kd: "set (map_keys (difference X Y))
      = (set (map_keys X) - set (map_keys Y)) \<union> (set (map_keys Y) - set (map_keys X))"
    for X Y :: "('a, 'b) mapdata"
    using fold_set_if_keys [of "\<lambda>k. \<not> map_has k Y"
        "foldl (\<lambda>coll (k, v). if \<not> map_has k X then map_set k v coll else coll) [] (map_entries Y)"
        "map_entries X"]
      fold_set_if_keys [of "\<lambda>k. \<not> map_has k X" "[]" "map_entries Y"]
    by (auto simp: difference_def Let_def map_has_def map_keys_def)
  have vi: "map_get k (intersect A B) = map_get k B" if "k \<in> set (map_keys (intersect A B))" for k
  proof -
    from that have "k \<in> set (map_keys A)" "k \<in> set (map_keys B)" by (simp_all add: ki)
    then have "map_has k A" "k \<in> fst ` set (map_entries B)"
      by (simp_all add: map_has_def map_keys_def)
    then show ?thesis
      using fold_set_if_get [OF db, of k "\<lambda>k. map_has k A" "[]"]
      by (simp add: intersect_def map_get_def)
  qed
  have vd: "map_get k (difference A B) = (if k \<in> set (map_keys A) then map_get k A else map_get k B)"
    if "k \<in> set (map_keys (difference A B))" for k
  proof (cases "k \<in> set (map_keys A)")
    case True
    with that have "k \<notin> set (map_keys B)" by (auto simp: kd)
    with True have "\<not> map_has k B" "k \<in> fst ` set (map_entries A)"
      by (simp_all add: map_has_def map_keys_def)
    with True show ?thesis
      using fold_set_if_get [OF da, of k "\<lambda>k. \<not> map_has k B"
        "foldl (\<lambda>coll (k, v). if \<not> map_has k A then map_set k v coll else coll) []
           (map_entries B)"]
      by (simp add: difference_def Let_def map_get_def)
  next
    case False
    with that have "k \<in> set (map_keys B)" by (auto simp: kd)
    with False have "\<not> map_has k A" "k \<in> fst ` set (map_entries B)"
      "k \<notin> fst ` set (map_entries A)"
      by (simp_all add: map_has_def map_keys_def)
    with False show ?thesis
      using fold_set_if_get [OF da, of k "\<lambda>k. \<not> map_has k B"
        "foldl (\<lambda>coll (k, v). if \<not> map_has k A then map_set k v coll else coll) []
           (map_entries B)"]
        fold_set_if_get [OF db, of k "\<lambda>k. \<not> map_has k A" "[]"]
      by (simp add: difference_def Let_def map_get_def)
  qed
  show ?thesis
    using ki [of A B] ki [of B A] kd [of A B] kd [of B A] vi vd by (intro conjI ballI) auto
qed

theorem intersect_difference_keys_witness:
  "map_ok (map_new [(''a'', 1::int), (''b'', 2)]) \<and> map_ok (map_new [(''b'', 20::int), (''c'', 30)])
   \<and> map_entries (intersect (map_new [(''a'', 1::int), (''b'', 2)]) (map_new [(''b'', 20), (''c'', 30)]))
       = [(''b'', 20)]
   \<and> map_entries (intersect (map_new [(''b'', 20::int), (''c'', 30)]) (map_new [(''a'', 1), (''b'', 2)]))
       = [(''b'', 2)]
   \<and> map_entries (difference (map_new [(''a'', 1::int), (''b'', 2)]) (map_new [(''b'', 20), (''c'', 30)]))
       = [(''c'', 30), (''a'', 1)]
   \<and> map_entries (difference (map_new [(''b'', 20::int), (''c'', 30)]) (map_new [(''a'', 1), (''b'', 2)]))
       = [(''a'', 1), (''c'', 30)]"
  using intersect_difference_keys [OF map_ok_map_new map_ok_map_new,
      of "[(''a'', 1::int), (''b'', 2)]" "[(''b'', 20), (''c'', 30)]"]
  by (simp add: map_new_def intersect_def difference_def map_has_def map_keys_def map_ok_def)

text \<open>
  C10. If the key is present, \<open>ensure(key, generator)\<close> returns the stored value, leaves
  the collection as it is and does not call the generator. If the key is absent, it calls
  the generator once, with the key and the collection, returns the generated value, and
  leaves the collection with that value under the key, as a new last entry: the entries
  are those before followed by the new one, and the size is one more.
\<close>

theorem ensure_present_or_generated:
  "(map_has key this \<longrightarrow>
      (\<exists>v. map_get key this = Some v \<and> ensure key gen this = (Some v, this, [])))
   \<and> (\<not> map_has key this \<longrightarrow>
      (\<exists>this'. ensure key gen this = (Some (gen key this), this', [(key, this)])
         \<and> map_entries this' = map_entries this @ [(key, gen key this)]
         \<and> map_size this' = map_size this + 1
         \<and> map_get key this' = Some (gen key this)))"
  by (auto simp: ensure_def Let_def map_has_iff_get [symmetric] map_entries_map_set_fresh
      map_size_def map_get_map_set dest: map_has_iff_get [THEN iffD1])

theorem ensure_present_or_generated_witness:
  "ensure ''a'' (\<lambda>k c. 7) (map_new [(''a'', 1::int)]) = (Some 1, map_new [(''a'', 1)], [])
   \<and> ensure ''b'' (\<lambda>k c. 7) (map_new [(''a'', 1::int)])
       = (Some 7, map_new [(''a'', 1), (''b'', 7)], [(''b'', map_new [(''a'', 1)])])"
  using ensure_present_or_generated [of "''a''" "map_new [(''a'', 1::int)]" "\<lambda>k c. 7"]
    ensure_present_or_generated [of "''b''" "map_new [(''a'', 1::int)]" "\<lambda>k c. 7"]
  by (simp add: map_new_def ensure_def map_has_def map_keys_def map_get_def)

end
